theory Spec2Isabelle
  imports Main
begin

unbundle bit_operations_syntax

section \<open>gobag: the tokenizer \<open>Fields\<close> and the unquoter \<open>UnquoteString\<close>\<close>

subsection \<open>Strings, runes and errors\<close>

text \<open>
  A Go string is a sequence of bytes. Both functions read their input with
  \<^verbatim>\<open>for _, r := range s\<close>, which decodes the bytes as UTF-8 one rune (code point) at a
  time, and write with \<^verbatim>\<open>sb.WriteRune(r)\<close>, which appends the UTF-8 encoding of the rune
  to the builder. The model has the same three layers: \<open>range_runes\<close> decodes a byte
  string, the scans of \<open>Fields\<close> and \<open>UnquoteString\<close> work on the runes, and
  \<open>Builder_String\<close> gives the bytes of the runes written. \<open>Fields_str\<close> and
  \<open>UnquoteString_str\<close> are the functions on byte strings.
  A rune is an integer (Go's \<^verbatim>\<open>int32\<close>) and a byte an integer from 0 to 255.
\<close>

type_synonym rune = int
type_synonym byte = int

definition bslash :: rune where "bslash = 0x5C"
definition dquote :: rune where "dquote = 0x22"
definition squote :: rune where "squote = 0x27"
definition lparen :: rune where "lparen = 0x28"
definition rparen :: rune where "rparen = 0x29"
definition comma :: rune where "comma = 0x2C"

text \<open>The runes of an ASCII literal, for writing inputs down.\<close>

definition runes :: "string \<Rightarrow> rune list" where
  "runes cs = map of_char cs"

text \<open>\<^verbatim>\<open>errors.New(msg)\<close>: an error value carrying its message.\<close>

datatype error = errors_New string

subsection \<open>UTF-8: what \<^verbatim>\<open>range\<close> reads and \<^verbatim>\<open>WriteRune\<close> writes\<close>

text \<open>
  The constants of Go's \<^verbatim>\<open>runtime/utf8.go\<close> and \<^verbatim>\<open>unicode/utf8\<close>, under their names.
\<close>

abbreviation (input) runeError :: rune where "runeError \<equiv> 0xFFFD"
abbreviation (input) runeSelf :: byte where "runeSelf \<equiv> 0x80"
abbreviation (input) maxRune :: rune where "maxRune \<equiv> 0x10FFFF"
abbreviation (input) surrogateMin :: rune where "surrogateMin \<equiv> 0xD800"
abbreviation (input) surrogateMax :: rune where "surrogateMax \<equiv> 0xDFFF"
abbreviation (input) tx :: byte where "tx \<equiv> 0x80"
abbreviation (input) t2 :: byte where "t2 \<equiv> 0xC0"
abbreviation (input) t3 :: byte where "t3 \<equiv> 0xE0"
abbreviation (input) t4 :: byte where "t4 \<equiv> 0xF0"
abbreviation (input) t5 :: byte where "t5 \<equiv> 0xF8"
abbreviation (input) maskx :: byte where "maskx \<equiv> 0x3F"
abbreviation (input) mask2 :: byte where "mask2 \<equiv> 0x1F"
abbreviation (input) mask3 :: byte where "mask3 \<equiv> 0x0F"
abbreviation (input) mask4 :: byte where "mask4 \<equiv> 0x07"
abbreviation (input) rune1Max :: rune where "rune1Max \<equiv> 0x7F"
abbreviation (input) rune2Max :: rune where "rune2Max \<equiv> 0x7FF"
abbreviation (input) rune3Max :: rune where "rune3Max \<equiv> 0xFFFF"
abbreviation (input) locb :: byte where "locb \<equiv> 0x80"
abbreviation (input) hicb :: byte where "hicb \<equiv> 0xBF"

text \<open>The conversion \<^verbatim>\<open>byte(x)\<close> keeps the low eight bits.\<close>

definition to_byte :: "int \<Rightarrow> byte" where
  "to_byte x = take_bit 8 x"

text \<open>
  \<^verbatim>\<open>decoderune\<close> of the Go runtime, called by \<^verbatim>\<open>range\<close> on a first byte that is not
  ASCII: the rune at the start of \<open>s\<close> and the number of bytes to step over. A lead
  byte with too few or wrong continuation bytes, an overlong form, a surrogate and a
  value above \<^verbatim>\<open>maxRune\<close> all give \<^verbatim>\<open>runeError\<close> and a step of one byte.
\<close>

definition decoderune :: "byte list \<Rightarrow> rune \<times> nat" where
  "decoderune s =
    (case s of
       [] \<Rightarrow> (runeError, 1)
     | b0 # s1 \<Rightarrow>
         if t2 \<le> b0 \<and> b0 < t3 then
           (case s1 of
              b1 # _ \<Rightarrow>
                if locb \<le> b1 \<and> b1 \<le> hicb then
                  (let r = push_bit 6 (b0 AND mask2) OR (b1 AND maskx) in
                   if rune1Max < r then (r, 2) else (runeError, 1))
                else (runeError, 1)
            | _ \<Rightarrow> (runeError, 1))
         else if t3 \<le> b0 \<and> b0 < t4 then
           (case s1 of
              b1 # b2 # _ \<Rightarrow>
                if (locb \<le> b1 \<and> b1 \<le> hicb) \<and> (locb \<le> b2 \<and> b2 \<le> hicb) then
                  (let r = (push_bit 12 (b0 AND mask3) OR push_bit 6 (b1 AND maskx))
                             OR (b2 AND maskx) in
                   if rune2Max < r \<and> \<not> (surrogateMin \<le> r \<and> r \<le> surrogateMax)
                   then (r, 3) else (runeError, 1))
                else (runeError, 1)
            | _ \<Rightarrow> (runeError, 1))
         else if t4 \<le> b0 \<and> b0 < t5 then
           (case s1 of
              b1 # b2 # b3 # _ \<Rightarrow>
                if (locb \<le> b1 \<and> b1 \<le> hicb) \<and> (locb \<le> b2 \<and> b2 \<le> hicb) \<and>
                   (locb \<le> b3 \<and> b3 \<le> hicb) then
                  (let r = ((push_bit 18 (b0 AND mask4) OR push_bit 12 (b1 AND maskx))
                              OR push_bit 6 (b2 AND maskx)) OR (b3 AND maskx) in
                   if rune3Max < r \<and> r \<le> maxRune then (r, 4) else (runeError, 1))
                else (runeError, 1)
            | _ \<Rightarrow> (runeError, 1))
         else (runeError, 1))"

text \<open>
  The runes that \<^verbatim>\<open>for _, r := range s\<close> yields: a byte below \<^verbatim>\<open>runeSelf\<close> is its own
  rune, any other position is decoded by \<open>decoderune\<close>.
\<close>

function range_runes :: "byte list \<Rightarrow> rune list" where
  "range_runes [] = []"
| "range_runes (b # s) =
    (if b < runeSelf then b # range_runes s
     else fst (decoderune (b # s)) #
          range_runes (drop (snd (decoderune (b # s))) (b # s)))"
  by pat_completeness auto
termination
proof (relation "measure length")
  show "wf (measure length)" by simp
next
  fix b :: byte and s :: "byte list"
  assume "b < runeSelf"
  show "(s, b # s) \<in> measure length" by simp
next
  fix b :: byte and s :: "byte list"
  assume "\<not> b < runeSelf"
  have "0 < snd (decoderune (b # s))"
    by (simp add: decoderune_def Let_def split: list.splits)
  then show "(drop (snd (decoderune (b # s))) (b # s), b # s) \<in> measure length"
    by simp
qed

text \<open>
  \<^verbatim>\<open>utf8.AppendRune\<close>, which \<^verbatim>\<open>Builder.WriteRune\<close> calls: the bytes written for one
  rune. The source compares \<^verbatim>\<open>uint32(r)\<close>, so a negative rune counts as above
  \<^verbatim>\<open>MaxRune\<close>; such a rune and a surrogate are written as \<^verbatim>\<open>RuneError\<close>.
\<close>

definition AppendRune :: "rune \<Rightarrow> byte list" where
  "AppendRune r =
    (if 0 \<le> r \<and> r \<le> rune1Max then [to_byte r]
     else if 0 \<le> r \<and> r \<le> rune2Max then
       [t2 OR to_byte (drop_bit 6 r), tx OR (to_byte r AND maskx)]
     else if r < 0 \<or> maxRune < r \<or> (surrogateMin \<le> r \<and> r \<le> surrogateMax) then
       [t3 OR to_byte (drop_bit 12 runeError),
        tx OR (to_byte (drop_bit 6 runeError) AND maskx),
        tx OR (to_byte runeError AND maskx)]
     else if r \<le> rune3Max then
       [t3 OR to_byte (drop_bit 12 r),
        tx OR (to_byte (drop_bit 6 r) AND maskx),
        tx OR (to_byte r AND maskx)]
     else
       [t4 OR to_byte (drop_bit 18 r),
        tx OR (to_byte (drop_bit 12 r) AND maskx),
        tx OR (to_byte (drop_bit 6 r) AND maskx),
        tx OR (to_byte r AND maskx)])"

text \<open>\<^verbatim>\<open>sb.String()\<close> after the runes \<open>rs\<close> have been written to an empty builder.\<close>

definition Builder_String :: "rune list \<Rightarrow> byte list" where
  "Builder_String rs = concat (map AppendRune rs)"

subsection \<open>Fields\<close>

text \<open>
  The local variables of \<^verbatim>\<open>Fields\<close> (\<open>fields'\<close> is the slice \<^verbatim>\<open>fields\<close>, a name
  the record package reserves). \<open>balance\<close> is a Go \<^verbatim>\<open>int\<close>; it moves by one
  per rune read, so it cannot leave the 64-bit range on any string that fits in memory,
  and is modelled as an unbounded integer.
\<close>

record fstate =
  sb :: "rune list"
  fields' :: "rune list list"
  balance :: int
  inSingle :: bool
  inDouble :: bool
  isEscaped :: bool

definition Fields_init :: fstate where
  "Fields_init = \<lparr>sb = [], fields' = [], balance = 0,
                   inSingle = False, inDouble = False, isEscaped = False\<rparr>"

definition WriteRune :: "rune \<Rightarrow> fstate \<Rightarrow> fstate" where
  "WriteRune r st = st\<lparr>sb := sb st @ [r]\<rparr>"

text \<open>
  One iteration of the loop body. The \<^verbatim>\<open>switch\<close> takes the first case that matches,
  so the cases are tried in the order of the source: backslash, separator, double quote,
  single quote, opening and closing parenthesis. The two branches that \<^verbatim>\<open>continue\<close>
  (backslash, separator that splits) skip the final \<^verbatim>\<open>sb.WriteRune(r)\<close>.
\<close>

definition Fields_step :: "rune \<Rightarrow> fstate \<Rightarrow> rune \<Rightarrow> fstate" where
  "Fields_step sep st r =
    (if isEscaped st then (WriteRune r st)\<lparr>isEscaped := False\<rparr>
     else if r = bslash then st\<lparr>isEscaped := True\<rparr>
     else if r = sep then
       (if balance st = 0 \<and> \<not> inSingle st \<and> \<not> inDouble st
        then st\<lparr>fields' := fields' st @ [sb st], sb := []\<rparr>
        else WriteRune r st)
     else if r = dquote then
       WriteRune r (if \<not> inSingle st then st\<lparr>inDouble := \<not> inDouble st\<rparr> else st)
     else if r = squote then
       WriteRune r (if \<not> inDouble st then st\<lparr>inSingle := \<not> inSingle st\<rparr> else st)
     else if r = lparen then
       WriteRune r (if \<not> inSingle st \<and> \<not> inDouble st
                    then st\<lparr>balance := balance st + 1\<rparr> else st)
     else if r = rparen then
       WriteRune r (if \<not> inSingle st \<and> \<not> inDouble st
                    then st\<lparr>balance := balance st - 1\<rparr> else st)
     else WriteRune r st)"

fun Fields_loop :: "rune \<Rightarrow> fstate \<Rightarrow> rune list \<Rightarrow> fstate" where
  "Fields_loop sep st [] = st"
| "Fields_loop sep st (r # rs) = Fields_loop sep (Fields_step sep st r) rs"

text \<open>
  The result is Go's pair \<^verbatim>\<open>([]string, error)\<close>: \<open>None\<close> in the first component is
  the nil slice, \<open>None\<close> in the second is the nil error.
\<close>

definition Fields :: "rune list \<Rightarrow> rune \<Rightarrow> rune list list option \<times> error option" where
  "Fields s sep =
    (let st = Fields_loop sep Fields_init s in
     if isEscaped st then
       (None, Some (errors_New ''dangling escape character at end of string''))
     else if balance st < 0 then
       (None, Some (errors_New ''too many closing parentheses''))
     else if balance st \<noteq> 0 then
       (None, Some (errors_New ''unbalanced parentheses in string''))
     else if inSingle st then
       (None, Some (errors_New ''unbalanced single quote in string''))
     else if inDouble st then
       (None, Some (errors_New ''unbalanced double quote in string''))
     else if length (sb st) > 0 then (Some (fields' st @ [sb st]), None)
     else (Some (fields' st), None))"

text \<open>
  \<^verbatim>\<open>Fields\<close> on a Go string: the runes of \<open>s\<close> go through the loop, and every field is
  the \<^verbatim>\<open>sb.String()\<close> of the runes written to it. A rune is written as at least one
  byte, so \<^verbatim>\<open>sb.Len() > 0\<close> holds exactly when a rune was written.
\<close>

definition Fields_str ::
  "byte list \<Rightarrow> rune \<Rightarrow> byte list list option \<times> error option" where
  "Fields_str s sep =
    (case Fields (range_runes s) sep of
       (fs, err) \<Rightarrow> (map_option (map Builder_String) fs, err))"

subsection \<open>UnquoteString and UnquoteStrings\<close>

record ustate =
  usb :: "rune list"
  inQuote :: bool
  escape :: bool

definition UnquoteString_init :: ustate where
  "UnquoteString_init = \<lparr>usb = [], inQuote = False, escape = False\<rparr>"

text \<open>
  One iteration of the loop of \<^verbatim>\<open>UnquoteString\<close>; \<open>Inl\<close> is the \<^verbatim>\<open>return\<close> from
  inside the loop.
\<close>

definition UnquoteString_step :: "ustate \<Rightarrow> rune \<Rightarrow> error + ustate" where
  "UnquoteString_step st r =
    (if escape st then
       (if r = dquote \<or> r = bslash
        then Inr (st\<lparr>usb := usb st @ [r], escape := False\<rparr>)
        else Inr (st\<lparr>usb := usb st @ [bslash, r], escape := False\<rparr>))
     else if r = bslash then
       (if \<not> inQuote st
        then Inl (errors_New ''escape character found outside a quote'')
        else Inr (st\<lparr>escape := True\<rparr>))
     else if r = dquote then Inr (st\<lparr>inQuote := \<not> inQuote st\<rparr>)
     else Inr (st\<lparr>usb := usb st @ [r]\<rparr>))"

fun UnquoteString_loop :: "ustate \<Rightarrow> rune list \<Rightarrow> error + ustate" where
  "UnquoteString_loop st [] = Inr st"
| "UnquoteString_loop st (r # rs) =
    (case UnquoteString_step st r of
       Inl e \<Rightarrow> Inl e
     | Inr st' \<Rightarrow> UnquoteString_loop st' rs)"

definition UnquoteString :: "rune list \<Rightarrow> rune list \<times> error option" where
  "UnquoteString s =
    (case UnquoteString_loop UnquoteString_init s of
       Inl e \<Rightarrow> ([], Some e)
     | Inr st \<Rightarrow>
         if escape st then
           ([], Some (errors_New ''dangling escape character at end of string''))
         else if inQuote st then ([], Some (errors_New ''unterminated double quote''))
         else (usb st, None))"

text \<open>\<^verbatim>\<open>UnquoteString\<close> on a Go string.\<close>

definition UnquoteString_str :: "byte list \<Rightarrow> byte list \<times> error option" where
  "UnquoteString_str s =
    (case UnquoteString (range_runes s) of (out, err) \<Rightarrow> (Builder_String out, err))"

fun UnquoteStrings_loop ::
  "rune list list \<Rightarrow> rune list list \<Rightarrow> rune list list option \<times> error option" where
  "UnquoteStrings_loop unquoted [] = (Some unquoted, None)"
| "UnquoteStrings_loop unquoted (elem # elems) =
    (case UnquoteString elem of
       (s, Some err) \<Rightarrow> (None, Some err)
     | (s, None) \<Rightarrow> UnquoteStrings_loop (unquoted @ [s]) elems)"

definition UnquoteStrings :: "rune list list \<Rightarrow> rune list list option \<times> error option" where
  "UnquoteStrings elems = UnquoteStrings_loop [] elems"

subsection \<open>Notions used to state the properties\<close>

text \<open>
  The step closes the current field: the branch of \<^verbatim>\<open>case sep\<close> that appends
  \<^verbatim>\<open>sb.String()\<close> to \<^verbatim>\<open>fields\<close> is taken. It is reached only when no escape is
  pending and the earlier \<^verbatim>\<open>case '\\'\<close> did not match.
\<close>

definition splits :: "rune \<Rightarrow> fstate \<Rightarrow> rune \<Rightarrow> bool" where
  "splits sep st r \<longleftrightarrow>
     \<not> isEscaped st \<and> r \<noteq> bslash \<and> r = sep \<and>
     balance st = 0 \<and> \<not> inSingle st \<and> \<not> inDouble st"

text \<open>
  A Unicode scalar value; the well-formed UTF-8 strings are the \<open>Builder_String rs\<close>
  with every rune of \<open>rs\<close> a scalar value.
\<close>

definition scalar :: "rune \<Rightarrow> bool" where
  "scalar r \<longleftrightarrow>
     0 \<le> r \<and> r \<le> maxRune \<and> \<not> (surrogateMin \<le> r \<and> r \<le> surrogateMax)"

text \<open>
  Balanced input, after the words of the specification and without any separator: a
  backslash escapes the next character, whatever it is, and must not be the last one; a
  quote runs to the next unescaped quote of the same kind, and the other quote and the
  parentheses are inert inside it; outside quotes every closing parenthesis closes an
  open one; at the end no quote and no parenthesis is open. \<open>d\<close> is the number of open
  parentheses and \<open>q\<close> the quote that is open.
\<close>

datatype quote = Outside | Single | Double

fun balanced_scan :: "nat \<Rightarrow> quote \<Rightarrow> rune list \<Rightarrow> bool" where
  "balanced_scan d q [] = (d = 0 \<and> q = Outside)"
| "balanced_scan d q (c # cs) =
    (if c = bslash then
       (case cs of [] \<Rightarrow> False | e # cs' \<Rightarrow> balanced_scan d q cs')
     else
       (case q of
          Single \<Rightarrow> balanced_scan d (if c = squote then Outside else Single) cs
        | Double \<Rightarrow> balanced_scan d (if c = dquote then Outside else Double) cs
        | Outside \<Rightarrow>
            if c = squote then balanced_scan d Single cs
            else if c = dquote then balanced_scan d Double cs
            else if c = lparen then balanced_scan (Suc d) Outside cs
            else if c = rparen then
              (case d of 0 \<Rightarrow> False | Suc d' \<Rightarrow> balanced_scan d' Outside cs)
            else balanced_scan d Outside cs))"

definition balanced_input :: "rune list \<Rightarrow> bool" where
  "balanced_input s = balanced_scan 0 Outside s"

text \<open>A backslash at the end of \<open>s\<close> escapes the character that comes next.\<close>

fun pending_escape :: "rune list \<Rightarrow> bool" where
  "pending_escape [] = False"
| "pending_escape [c] = (c = bslash)"
| "pending_escape (c # d # rs) =
     (if c = bslash then pending_escape rs else pending_escape (d # rs))"

text \<open>The last character of \<open>s\<close> is the separator, not escaped and not the backslash.\<close>

definition ends_in_delimiter :: "rune list \<Rightarrow> rune \<Rightarrow> bool" where
  "ends_in_delimiter s sep \<longleftrightarrow>
     s \<noteq> [] \<and> last s = sep \<and> sep \<noteq> bslash \<and> \<not> pending_escape (butlast s)"

text \<open>The flags of a state of \<open>Fields\<close> agree with a state of \<open>balanced_scan\<close>.\<close>

definition flags_ok :: "nat \<Rightarrow> quote \<Rightarrow> fstate \<Rightarrow> bool" where
  "flags_ok d q st \<longleftrightarrow>
     \<not> isEscaped st \<and> balance st = int d \<and>
     inSingle st = (q = Single) \<and> inDouble st = (q = Double)"

text \<open>
  The fields concatenated with the separator put back between consecutive fields
  (what \<^verbatim>\<open>strings.Join\<close> computes for a one-rune separator).
\<close>

fun Join :: "rune list list \<Rightarrow> rune \<Rightarrow> rune list" where
  "Join [] sep = []"
| "Join [f] sep = f"
| "Join (f # g # fs) sep = f @ sep # Join (g # fs) sep"

text \<open>
  The input without the backslashes that introduce an escape: a backslash is dropped and
  the rune after it is kept, whatever it is (also a second backslash).
\<close>

fun strip_escapes :: "rune list \<Rightarrow> rune list" where
  "strip_escapes [] = []"
| "strip_escapes [c] = (if c = bslash then [] else [c])"
| "strip_escapes (c # d # rs) =
     (if c = bslash then d # strip_escapes rs else c # strip_escapes (d # rs))"

text \<open>What a state has produced so far: the closed fields and the open one, joined.\<close>

definition emitted :: "rune \<Rightarrow> fstate \<Rightarrow> rune list" where
  "emitted sep st = Join (fields' st @ [sb st]) sep"

section \<open>Properties of the UTF-8 layer\<close>

text \<open>
  Reading back what was written: \<open>range_runes\<close> after \<open>AppendRune\<close> gives the rune, for
  every scalar value. The bit operations are first turned into arithmetic.
\<close>

lemma or_add_int:
  fixes x k :: int
  assumes "0 \<le> x" "x < 2 ^ n"
  shows "push_bit n k OR x = push_bit n k + x"
proof -
  have "take_bit n x = x" using assms by (simp add: take_bit_int_eq_self)
  then have "push_bit n k OR x = concat_bit n x k"
    by (simp add: concat_bit_def or.commute)
  also have "\<dots> = take_bit n x + push_bit n k" by (rule concat_bit_eq)
  finally show ?thesis using \<open>take_bit n x = x\<close> by simp
qed

lemma and_mask_mod:
  fixes x :: int
  shows "x AND mask n = x mod 2 ^ n"
  by (simp add: take_bit_eq_mod flip: take_bit_eq_mask)

lemma and_3F: "(x::int) AND 0x3F = x mod 64"
  using and_mask_mod[of x 6] by (simp add: mask_eq_exp_minus_1)
lemma and_1F: "(x::int) AND 0x1F = x mod 32"
  using and_mask_mod[of x 5] by (simp add: mask_eq_exp_minus_1)
lemma and_0F: "(x::int) AND 0x0F = x mod 16"
  using and_mask_mod[of x 4] by (simp add: mask_eq_exp_minus_1)
lemma and_07: "(x::int) AND 0x07 = x mod 8"
  using and_mask_mod[of x 3] by (simp add: mask_eq_exp_minus_1)

lemma or_80: "0 \<le> x \<Longrightarrow> x < 64 \<Longrightarrow> (0x80::int) OR x = 0x80 + x"
  using or_add_int[of x 7 1] by (simp add: push_bit_eq_mult)
lemma or_C0: "0 \<le> x \<Longrightarrow> x < 32 \<Longrightarrow> (0xC0::int) OR x = 0xC0 + x"
  using or_add_int[of x 6 3] by (simp add: push_bit_eq_mult)
lemma or_E0: "0 \<le> x \<Longrightarrow> x < 16 \<Longrightarrow> (0xE0::int) OR x = 0xE0 + x"
  using or_add_int[of x 5 7] by (simp add: push_bit_eq_mult)
lemma or_F0: "0 \<le> x \<Longrightarrow> x < 8 \<Longrightarrow> (0xF0::int) OR x = 0xF0 + x"
  using or_add_int[of x 4 15] by (simp add: push_bit_eq_mult)

lemma or_shift6: "0 \<le> x \<Longrightarrow> x < 64 \<Longrightarrow> (k * 64) OR x = k * 64 + (x::int)"
  using or_add_int[of x 6 k] by (simp add: push_bit_eq_mult)
lemma or_shift12: "0 \<le> x \<Longrightarrow> x < 4096 \<Longrightarrow> (k * 4096) OR x = k * 4096 + (x::int)"
  using or_add_int[of x 12 k] by (simp add: push_bit_eq_mult)
lemma or_shift18: "0 \<le> x \<Longrightarrow> x < 262144 \<Longrightarrow> (k * 262144) OR x = k * 262144 + (x::int)"
  using or_add_int[of x 18 k] by (simp add: push_bit_eq_mult)

lemma tag_mod:
  fixes x n k :: int
  shows "0 \<le> x \<Longrightarrow> x < n \<Longrightarrow> (k * n + x) mod n = x"
  by simp

lemma AppendRune1: "0 \<le> r \<Longrightarrow> r \<le> 0x7F \<Longrightarrow> AppendRune r = [r]"
  by (simp add: AppendRune_def to_byte_def take_bit_int_eq_self)

lemma AppendRune2:
  assumes "0x7F < r" "r \<le> 0x7FF"
  shows "AppendRune r = [0xC0 + r div 64, 0x80 + r mod 64]"
proof -
  have a: "to_byte (drop_bit 6 r) = r div 64"
    using assms by (simp add: to_byte_def drop_bit_eq_div take_bit_int_eq_self)
  have b: "to_byte r AND 0x3F = r mod 64"
    by (simp add: and_3F to_byte_def take_bit_eq_mod mod_mod_cancel)
  show ?thesis using assms
    by (simp add: AppendRune_def a b or_C0 or_80)
qed


lemma AppendRune3:
  assumes "0x7FF < r" "r \<le> 0xFFFF" "\<not> (0xD800 \<le> r \<and> r \<le> 0xDFFF)"
  shows "AppendRune r = [0xE0 + r div 4096, 0x80 + (r div 64) mod 64, 0x80 + r mod 64]"
proof -
  have a: "to_byte (drop_bit 12 r) = r div 4096"
    using assms by (simp add: to_byte_def drop_bit_eq_div take_bit_int_eq_self)
  have b: "to_byte (drop_bit 6 r) AND 0x3F = (r div 64) mod 64"
    by (simp add: and_3F to_byte_def drop_bit_eq_div take_bit_eq_mod mod_mod_cancel)
  have c: "to_byte r AND 0x3F = r mod 64"
    by (simp add: and_3F to_byte_def take_bit_eq_mod mod_mod_cancel)
  have d: "r div 4096 < 16" "0 \<le> r div 4096" using assms by simp_all
  show ?thesis
  proof (cases "r < 0xD800")
    case True
    then show ?thesis using assms d by (simp add: AppendRune_def a b c or_E0 or_80)
  next
    case False
    then have "0xDFFF < r" using assms by simp
    then show ?thesis using assms d by (simp add: AppendRune_def a b c or_E0 or_80)
  qed
qed

lemma AppendRune4:
  assumes "0xFFFF < r" "r \<le> 0x10FFFF"
  shows "AppendRune r = [0xF0 + r div 262144, 0x80 + (r div 4096) mod 64,
                         0x80 + (r div 64) mod 64, 0x80 + r mod 64]"
proof -
  have a: "to_byte (drop_bit 18 r) = r div 262144"
    using assms by (simp add: to_byte_def drop_bit_eq_div take_bit_int_eq_self)
  have b: "to_byte (drop_bit 12 r) AND 0x3F = (r div 4096) mod 64"
    by (simp add: and_3F to_byte_def drop_bit_eq_div take_bit_eq_mod mod_mod_cancel)
  have c: "to_byte (drop_bit 6 r) AND 0x3F = (r div 64) mod 64"
    by (simp add: and_3F to_byte_def drop_bit_eq_div take_bit_eq_mod mod_mod_cancel)
  have d: "to_byte r AND 0x3F = r mod 64"
    by (simp add: and_3F to_byte_def take_bit_eq_mod mod_mod_cancel)
  have e: "r div 262144 < 8" "0 \<le> r div 262144" using assms by simp_all
  show ?thesis using assms e
    by (simp add: AppendRune_def a b c d or_F0 or_80)
qed

lemma dec2:
  fixes h l :: int
  assumes "0 \<le> h" "h < 32" "0 \<le> l" "l < 64"
  shows "push_bit 6 ((0xC0 + h) AND 0x1F) OR ((0x80 + l) AND 0x3F) = h * 64 + l"
proof -
  have a: "(0xC0 + h) mod 32 = h" using assms tag_mod[of h 32 6] by simp
  have b: "(0x80 + l) mod 64 = l" using assms tag_mod[of l 64 2] by simp
  show ?thesis using assms by (simp add: and_1F and_3F a b push_bit_eq_mult or_shift6)
qed

lemma dec3:
  fixes h m l :: int
  assumes "0 \<le> h" "h < 16" "0 \<le> m" "m < 64" "0 \<le> l" "l < 64"
  shows "(push_bit 12 ((0xE0 + h) AND 0x0F) OR push_bit 6 ((0x80 + m) AND 0x3F))
           OR ((0x80 + l) AND 0x3F) = h * 4096 + m * 64 + l"
proof -
  have a: "(0xE0 + h) mod 16 = h" using assms tag_mod[of h 16 14] by simp
  have b: "(0x80 + m) mod 64 = m" using assms tag_mod[of m 64 2] by simp
  have c: "(0x80 + l) mod 64 = l" using assms tag_mod[of l 64 2] by simp
  have d: "(h * 4096) OR (m * 64) = h * 4096 + m * 64"
    using assms by (intro or_shift12) simp_all
  have e: "h * 4096 + m * 64 = (h * 64 + m) * 64" by simp
  have f: "((h * 64 + m) * 64) OR l = (h * 64 + m) * 64 + l"
    using assms by (intro or_shift6) simp_all
  have "(push_bit 12 ((0xE0 + h) AND 0x0F) OR push_bit 6 ((0x80 + m) AND 0x3F))
           OR ((0x80 + l) AND 0x3F) = ((h * 4096) OR (m * 64)) OR l"
    by (simp add: and_0F and_3F a b c push_bit_eq_mult)
  also have "\<dots> = ((h * 64 + m) * 64) OR l" by (simp only: d e)
  also have "\<dots> = (h * 64 + m) * 64 + l" by (rule f)
  also have "\<dots> = h * 4096 + m * 64 + l" by simp
  finally show ?thesis .
qed

lemma dec4:
  fixes h m k l :: int
  assumes "0 \<le> h" "h < 8" "0 \<le> k" "k < 64" "0 \<le> m" "m < 64" "0 \<le> l" "l < 64"
  shows "((push_bit 18 ((0xF0 + h) AND 0x07) OR push_bit 12 ((0x80 + k) AND 0x3F))
            OR push_bit 6 ((0x80 + m) AND 0x3F))
           OR ((0x80 + l) AND 0x3F) = h * 262144 + k * 4096 + m * 64 + l"
proof -
  have a: "(0xF0 + h) mod 8 = h" using assms tag_mod[of h 8 30] by simp
  have b: "(0x80 + k) mod 64 = k" using assms tag_mod[of k 64 2] by simp
  have c: "(0x80 + m) mod 64 = m" using assms tag_mod[of m 64 2] by simp
  have c': "(0x80 + l) mod 64 = l" using assms tag_mod[of l 64 2] by simp
  have d: "(h * 262144) OR (k * 4096) = h * 262144 + k * 4096"
    using assms by (intro or_shift18) simp_all
  have e: "h * 262144 + k * 4096 = (h * 64 + k) * 4096" by simp
  have f: "((h * 64 + k) * 4096) OR (m * 64) = (h * 64 + k) * 4096 + m * 64"
    using assms by (intro or_shift12) simp_all
  have g: "(h * 64 + k) * 4096 + m * 64 = ((h * 64 + k) * 64 + m) * 64" by simp
  have i: "(((h * 64 + k) * 64 + m) * 64) OR l = ((h * 64 + k) * 64 + m) * 64 + l"
    using assms by (intro or_shift6) simp_all
  have "((push_bit 18 ((0xF0 + h) AND 0x07) OR push_bit 12 ((0x80 + k) AND 0x3F))
            OR push_bit 6 ((0x80 + m) AND 0x3F))
           OR ((0x80 + l) AND 0x3F) = (((h * 262144) OR (k * 4096)) OR (m * 64)) OR l"
    by (simp add: and_07 and_3F a b c c' push_bit_eq_mult)
  also have "\<dots> = (((h * 64 + k) * 4096) OR (m * 64)) OR l" by (simp only: d e)
  also have "\<dots> = (((h * 64 + k) * 64 + m) * 64) OR l" by (simp only: f g)
  also have "\<dots> = ((h * 64 + k) * 64 + m) * 64 + l" by (rule i)
  also have "\<dots> = h * 262144 + k * 4096 + m * 64 + l" by simp
  finally show ?thesis .
qed

lemma decoderune2:
  fixes h l :: int
  assumes "0 \<le> h" "h < 32" "0 \<le> l" "l < 64" "0x7F < h * 64 + l"
  shows "decoderune ((0xC0 + h) # (0x80 + l) # s) = (h * 64 + l, 2)"
  using assms dec2[of h l] by (simp add: decoderune_def Let_def)

lemma decoderune3:
  fixes h m l :: int
  assumes "0 \<le> h" "h < 16" "0 \<le> m" "m < 64" "0 \<le> l" "l < 64"
    "0x7FF < h * 4096 + m * 64 + l"
    "\<not> (0xD800 \<le> h * 4096 + m * 64 + l \<and> h * 4096 + m * 64 + l \<le> 0xDFFF)"
  shows "decoderune ((0xE0 + h) # (0x80 + m) # (0x80 + l) # s) = (h * 4096 + m * 64 + l, 3)"
  using assms dec3[of h m l] by (simp add: decoderune_def Let_def)

lemma decoderune4:
  fixes h k m l :: int
  assumes "0 \<le> h" "h < 8" "0 \<le> k" "k < 64" "0 \<le> m" "m < 64" "0 \<le> l" "l < 64"
    "0xFFFF < h * 262144 + k * 4096 + m * 64 + l"
    "h * 262144 + k * 4096 + m * 64 + l \<le> 0x10FFFF"
  shows "decoderune ((0xF0 + h) # (0x80 + k) # (0x80 + m) # (0x80 + l) # s) =
           (h * 262144 + k * 4096 + m * 64 + l, 4)"
  using assms dec4[of h k m l] by (simp add: decoderune_def Let_def)

lemma split2: "(r::int) = (r div 64) * 64 + r mod 64"
  by simp

lemma split_step: "(q::int) * n = (q div 64) * (64 * n) + (q mod 64) * n"
proof -
  have "(q div 64 * 64 + q mod 64) * n = q * n" by (simp only: div_mult_mod_eq)
  then show ?thesis by (simp only: distrib_right mult.assoc)
qed

lemma split3: "(r::int) = (r div 4096) * 4096 + ((r div 64) mod 64) * 64 + r mod 64"
proof -
  have a: "r div 4096 = (r div 64) div 64" by (simp add: div_mult2_eq[symmetric])
  have "(r div 64) * 64 = (r div 4096) * 4096 + ((r div 64) mod 64) * 64"
    using split_step[of "r div 64" 64] by (simp add: a)
  then show ?thesis using split2[of r] by simp
qed

lemma split4:
  "(r::int) = (r div 262144) * 262144 + ((r div 4096) mod 64) * 4096 +
              ((r div 64) mod 64) * 64 + r mod 64"
proof -
  have a: "r div 262144 = (r div 4096) div 64" by (simp add: div_mult2_eq[symmetric])
  have "(r div 4096) * 4096 = (r div 262144) * 262144 + ((r div 4096) mod 64) * 4096"
    using split_step[of "r div 4096" 4096] by (simp add: a)
  then show ?thesis using split3[of r] by simp
qed

lemma range_AppendRune:
  assumes "scalar r"
  shows "range_runes (AppendRune r @ s) = r # range_runes s"
proof -
  have r: "0 \<le> r" "r \<le> 0x10FFFF" "\<not> (0xD800 \<le> r \<and> r \<le> 0xDFFF)"
    using assms by (simp_all add: scalar_def)
  consider (one) "r \<le> 0x7F" | (two) "0x7F < r" "r \<le> 0x7FF"
    | (three) "0x7FF < r" "r \<le> 0xFFFF" | (four) "0xFFFF < r"
    by linarith
  then show ?thesis
  proof cases
    case one
    then show ?thesis using r by (simp add: AppendRune1)
  next
    case two
    define h l where "h = r div 64" and "l = r mod 64"
    have b: "0 \<le> h" "h < 32" "0 \<le> l" "l < 64" "2 \<le> h"
      using two r by (simp_all add: h_def l_def)
    have e: "h * 64 + l = r" using split2[of r] by (simp add: h_def l_def)
    have d: "decoderune ((0xC0 + h) # (0x80 + l) # s) = (r, 2)"
      using decoderune2[of h l s] b e two by simp
    have "AppendRune r = [0xC0 + h, 0x80 + l]"
      using AppendRune2[OF two] by (simp add: h_def l_def)
    then show ?thesis using d b by simp
  next
    case three
    define h m l where "h = r div 4096" and "m = (r div 64) mod 64" and "l = r mod 64"
    have b: "0 \<le> h" "h < 16" "0 \<le> m" "m < 64" "0 \<le> l" "l < 64"
      using three r by (simp_all add: h_def m_def l_def)
    have e: "h * 4096 + m * 64 + l = r" using split3[of r] by (simp add: h_def m_def l_def)
    have d: "decoderune ((0xE0 + h) # (0x80 + m) # (0x80 + l) # s) = (r, 3)"
      using decoderune3[of h m l s] b three r(3) unfolding e by simp
    have "AppendRune r = [0xE0 + h, 0x80 + m, 0x80 + l]"
      using AppendRune3[OF three r(3)] by (simp add: h_def m_def l_def)
    then show ?thesis using d b by simp
  next
    case four
    define h k m l where "h = r div 262144" and "k = (r div 4096) mod 64"
      and "m = (r div 64) mod 64" and "l = r mod 64"
    have b: "0 \<le> h" "h < 8" "0 \<le> k" "k < 64" "0 \<le> m" "m < 64" "0 \<le> l" "l < 64"
      using four r by (simp_all add: h_def k_def m_def l_def)
    have e: "h * 262144 + k * 4096 + m * 64 + l = r"
      using split4[of r] by (simp add: h_def k_def m_def l_def)
    have d: "decoderune ((0xF0 + h) # (0x80 + k) # (0x80 + m) # (0x80 + l) # s) = (r, 4)"
      using decoderune4[of h k m l s] b four r(2) unfolding e by simp
    have "AppendRune r = [0xF0 + h, 0x80 + k, 0x80 + m, 0x80 + l]"
      using AppendRune4[OF four r(2)] by (simp add: h_def k_def m_def l_def)
    then show ?thesis using d b by simp
  qed
qed

lemma range_Builder_String:
  "\<forall>r\<in>set rs. scalar r \<Longrightarrow> range_runes (Builder_String rs @ s) = rs @ range_runes s"
  by (induction rs) (simp_all add: Builder_String_def range_AppendRune)

section \<open>Properties of Fields\<close>

lemmas rune_defs = bslash_def dquote_def squote_def lparen_def rparen_def comma_def
lemmas Fields_defs = Fields_def Fields_init_def Fields_step_def WriteRune_def runes_def

subsection \<open>The loop\<close>

lemma Fields_loop_append:
  "Fields_loop sep st (xs @ ys) = Fields_loop sep (Fields_loop sep st xs) ys"
  by (induction xs arbitrary: st) simp_all

lemma Fields_step_splits:
  "splits sep st r \<Longrightarrow>
   Fields_step sep st r = st\<lparr>fields' := fields' st @ [sb st], sb := []\<rparr>"
  by (simp add: splits_def Fields_step_def)

lemma splits_after:
  "splits sep st sep \<Longrightarrow> splits sep (Fields_step sep st sep) sep"
  by (simp add: splits_def Fields_step_def)

text \<open>\<^verbatim>\<open>fields\<close> is append-only.\<close>

lemma Fields_step_fields_mono: "\<exists>rest. fields' (Fields_step sep st r) = fields' st @ rest"
  by (simp add: Fields_step_def WriteRune_def)

lemma Fields_loop_fields_mono: "\<exists>rest. fields' (Fields_loop sep st rs) = fields' st @ rest"
proof (induction rs arbitrary: st)
  case Nil
  then show ?case by simp
next
  case (Cons r rs)
  obtain a where a: "fields' (Fields_step sep st r) = fields' st @ a"
    using Fields_step_fields_mono by blast
  obtain b where
    "fields' (Fields_loop sep (Fields_step sep st r) rs) = fields' (Fields_step sep st r) @ b"
    using Cons.IH by blast
  with a show ?case by simp
qed

text \<open>The two quote flags exclude each other, and every step keeps it so.\<close>

lemma Fields_step_excl:
  "\<not> (inSingle st \<and> inDouble st) \<Longrightarrow>
   \<not> (inSingle (Fields_step sep st r) \<and> inDouble (Fields_step sep st r))"
  by (simp add: Fields_step_def WriteRune_def)

lemma Fields_loop_excl:
  "\<not> (inSingle st \<and> inDouble st) \<Longrightarrow>
   \<not> (inSingle (Fields_loop sep st rs) \<and> inDouble (Fields_loop sep st rs))"
proof (induction rs arbitrary: st)
  case Nil
  then show ?case by simp
next
  case (Cons r rs)
  from Cons.IH[OF Fields_step_excl[OF Cons.prems]] show ?case by simp
qed

subsection \<open>What the scan emits\<close>

lemma Join_Cons: "Join (f # fs) sep = f @ concat (map ((#) sep) fs)"
  by (induction fs arbitrary: f) auto

lemma Join_snoc_write: "Join (F @ [B @ [c]]) sep = Join (F @ [B]) sep @ [c]"
  by (cases F) (simp_all add: Join_Cons)

lemma Join_snoc_split: "Join (F @ [B, []]) sep = Join (F @ [B]) sep @ [sep]"
  by (cases F) (simp_all add: Join_Cons)

lemma step_escaped:
  "isEscaped st \<Longrightarrow>
     emitted sep (Fields_step sep st r) = emitted sep st @ [r] \<and>
     \<not> isEscaped (Fields_step sep st r)"
  by (simp add: Fields_step_def WriteRune_def emitted_def Join_snoc_write)

lemma step_bslash:
  "\<not> isEscaped st \<Longrightarrow>
     emitted sep (Fields_step sep st bslash) = emitted sep st \<and>
     isEscaped (Fields_step sep st bslash)"
  by (simp add: Fields_step_def emitted_def)

text \<open>
  Outside an escape every rune but the backslash shows up in the joined output: written
  into the open field, or, when it splits, as the separator that \<open>Join\<close> puts back.
\<close>

lemma step_plain:
  "\<not> isEscaped st \<Longrightarrow> r \<noteq> bslash \<Longrightarrow>
     emitted sep (Fields_step sep st r) = emitted sep st @ [r] \<and>
     \<not> isEscaped (Fields_step sep st r)"
  by (simp add: Fields_step_def WriteRune_def emitted_def Join_snoc_write Join_snoc_split)

lemma loop_emitted:
  "\<not> isEscaped st \<Longrightarrow>
     emitted sep (Fields_loop sep st s) = emitted sep st @ strip_escapes s"
proof (induction s arbitrary: st rule: strip_escapes.induct)
  case 1
  then show ?case by simp
next
  case (2 c)
  then show ?case using step_bslash[of st sep] step_plain[of st c sep] by simp
next
  case (3 c d rs)
  show ?case
  proof (cases "c = bslash")
    case True
    have e: "isEscaped (Fields_step sep st c)"
      using step_bslash[of st sep] 3 True by simp
    have "\<not> isEscaped (Fields_step sep (Fields_step sep st c) d)"
      using step_escaped[OF e] by simp
    from 3(1)[OF True this] show ?thesis
      using True step_escaped[OF e, of sep d] step_bslash[of st sep] 3(3) by simp
  next
    case False
    have "\<not> isEscaped (Fields_step sep st c)"
      using step_plain[of st c sep] 3(3) False by simp
    from 3(2)[OF False this] show ?thesis
      using False step_plain[of st c sep] 3(3) by simp
  qed
qed

lemma emitted_init: "emitted sep Fields_init = []"
  by (simp add: emitted_def Fields_init_def)

subsection \<open>Balanced input and the flags of the scan\<close>

text \<open>
  When the separator is none of the quote and parenthesis characters, the flags of
  \<open>Fields\<close> follow \<open>balanced_scan\<close> step by step, so a balanced input ends the scan
  with every check passed.
\<close>

lemma balanced_scan_step:
  assumes "sep \<notin> {dquote, squote, lparen, rparen}" "c \<noteq> bslash"
    "balanced_scan d q (c # cs)" "flags_ok d q st"
  shows "\<exists>d' q'. balanced_scan d' q' cs \<and> flags_ok d' q' (Fields_step sep st c)"
proof (cases q)
  case Single
  let ?q = "if c = squote then Outside else Single"
  have "balanced_scan d ?q cs" using assms Single by simp
  moreover have "flags_ok d ?q (Fields_step sep st c)"
    using assms Single
    by (auto simp add: flags_ok_def Fields_step_def WriteRune_def rune_defs)
  ultimately show ?thesis by blast
next
  case Double
  let ?q = "if c = dquote then Outside else Double"
  have "balanced_scan d ?q cs" using assms Double by simp
  moreover have "flags_ok d ?q (Fields_step sep st c)"
    using assms Double
    by (auto simp add: flags_ok_def Fields_step_def WriteRune_def rune_defs)
  ultimately show ?thesis by blast
next
  case Outside
  show ?thesis
  proof (cases "c = squote \<or> c = dquote")
    case True
    let ?q = "if c = squote then Single else Double"
    have "balanced_scan d ?q cs" using assms Outside True by auto
    moreover have "flags_ok d ?q (Fields_step sep st c)"
      using assms Outside True
      by (auto simp add: flags_ok_def Fields_step_def WriteRune_def rune_defs)
    ultimately show ?thesis by blast
  next
    case nq: False
    show ?thesis
    proof (cases "c = lparen")
      case True
      have "balanced_scan (Suc d) Outside cs" using assms Outside nq True by auto
      moreover have "flags_ok (Suc d) Outside (Fields_step sep st c)"
        using assms Outside nq True
        by (auto simp add: flags_ok_def Fields_step_def WriteRune_def rune_defs)
      ultimately show ?thesis by blast
    next
      case nl: False
      show ?thesis
      proof (cases "c = rparen")
        case True
        obtain d' where d: "d = Suc d'" and b: "balanced_scan d' Outside cs"
          using assms Outside nq nl True by (auto split: nat.splits)
        have "flags_ok d' Outside (Fields_step sep st c)"
          using assms Outside nq nl True d
          by (auto simp add: flags_ok_def Fields_step_def WriteRune_def rune_defs)
        with b show ?thesis by blast
      next
        case False
        have "balanced_scan d Outside cs" using assms Outside nq nl False by auto
        moreover have "flags_ok d Outside (Fields_step sep st c)"
          using assms Outside nq nl False
          by (auto simp add: flags_ok_def Fields_step_def WriteRune_def rune_defs)
        ultimately show ?thesis by blast
      qed
    qed
  qed
qed

lemma balanced_scan_escape:
  assumes "balanced_scan d q (bslash # cs)" "flags_ok d q st"
  shows "\<exists>e cs'. cs = e # cs' \<and> balanced_scan d q cs' \<and>
           flags_ok d q (Fields_step sep (Fields_step sep st bslash) e)"
proof -
  obtain e cs' where cs: "cs = e # cs'" and b: "balanced_scan d q cs'"
    using assms(1) by (auto split: list.splits)
  have "flags_ok d q (Fields_step sep (Fields_step sep st bslash) e)"
    using assms(2) by (simp add: flags_ok_def Fields_step_def WriteRune_def)
  with cs b show ?thesis by blast
qed

lemma balanced_scan_Fields_loop:
  assumes sep: "sep \<notin> {dquote, squote, lparen, rparen}"
  shows "balanced_scan d q s \<Longrightarrow> flags_ok d q st \<Longrightarrow>
         flags_ok 0 Outside (Fields_loop sep st s)"
proof (induction s arbitrary: d q st rule: length_induct)
  case (1 s)
  show ?case
  proof (cases s)
    case Nil
    then show ?thesis using 1(2,3) by simp
  next
    case (Cons c cs)
    show ?thesis
    proof (cases "c = bslash")
      case True
      obtain e cs' where cs: "cs = e # cs'" and b: "balanced_scan d q cs'"
        and f: "flags_ok d q (Fields_step sep (Fields_step sep st bslash) e)"
        using balanced_scan_escape[of d q cs st sep] 1(2,3) Cons True by auto
      have "length cs' < length s" using Cons cs by simp
      with 1(1) b f have "flags_ok 0 Outside
          (Fields_loop sep (Fields_step sep (Fields_step sep st bslash) e) cs')" by blast
      then show ?thesis using Cons cs True by simp
    next
      case False
      obtain d' q' where b: "balanced_scan d' q' cs"
        and f: "flags_ok d' q' (Fields_step sep st c)"
        using balanced_scan_step[OF sep False _ 1(3), of cs] 1(2) Cons by auto
      have "length cs < length s" using Cons by simp
      with 1(1) b f have "flags_ok 0 Outside (Fields_loop sep (Fields_step sep st c) cs)"
        by blast
      then show ?thesis using Cons by simp
    qed
  qed
qed

lemma Fields_loop_snoc:
  "Fields_loop sep st (p @ [c]) = Fields_step sep (Fields_loop sep st p) c"
  by (simp add: Fields_loop_append)

lemma isEscaped_pending:
  "\<not> isEscaped st \<Longrightarrow> isEscaped (Fields_loop sep st s) = pending_escape s"
proof (induction s arbitrary: st rule: pending_escape.induct)
  case 1
  then show ?case by simp
next
  case (2 c)
  then show ?case by (simp add: Fields_step_def WriteRune_def)
next
  case (3 c d rs)
  show ?case
  proof (cases "c = bslash")
    case True
    have "\<not> isEscaped (Fields_step sep (Fields_step sep st c) d)"
      using 3(3) True by (simp add: Fields_step_def WriteRune_def)
    from 3(1)[OF True this] show ?thesis using True by simp
  next
    case False
    have "\<not> isEscaped (Fields_step sep st c)"
      using 3(3) False by (simp add: Fields_step_def WriteRune_def)
    from 3(2)[OF False this] show ?thesis using False by simp
  qed
qed

lemma step_not_split_writes:
  "\<not> isEscaped (Fields_step sep st c) \<Longrightarrow> \<not> splits sep st c \<Longrightarrow>
   sb (Fields_step sep st c) \<noteq> []"
  by (auto simp add: Fields_step_def WriteRune_def splits_def split: if_splits)

lemma step_sep_flags:
  "\<not> isEscaped st \<Longrightarrow> sep \<noteq> bslash \<Longrightarrow>
   balance (Fields_step sep st sep) = balance st \<and>
   inSingle (Fields_step sep st sep) = inSingle st \<and>
   inDouble (Fields_step sep st sep) = inDouble st"
  by (simp add: Fields_step_def WriteRune_def)

text \<open>The exact relation on runes, for a scan that ends with all checks passed.\<close>

lemma Fields_join_exact:
  assumes ok: "flags_ok 0 Outside (Fields_loop sep Fields_init s)"
  shows "\<exists>fs. Fields s sep = (Some fs, None) \<and>
           Join fs sep @ (if ends_in_delimiter s sep then [sep] else []) = strip_escapes s"
proof -
  define st where "st = Fields_loop sep Fields_init s"
  have fl: "\<not> isEscaped st" "balance st = 0" "\<not> inSingle st" "\<not> inDouble st"
    using ok by (simp_all add: flags_ok_def st_def)
  have em: "Join (fields' st @ [sb st]) sep = strip_escapes s"
    using loop_emitted[of Fields_init sep s] emitted_init
    by (simp add: st_def emitted_def Fields_init_def)
  define fs where "fs = (if length (sb st) > 0 then fields' st @ [sb st] else fields' st)"
  have res: "Fields s sep = (Some fs, None)"
    using fl by (simp add: Fields_def Let_def st_def[symmetric] fs_def)
  have "Join fs sep @ (if ends_in_delimiter s sep then [sep] else []) = strip_escapes s"
  proof (cases s rule: rev_cases)
    case Nil
    then show ?thesis
      by (simp add: fs_def st_def Fields_init_def ends_in_delimiter_def)
  next
    case (snoc p c)
    define sp where "sp = Fields_loop sep Fields_init p"
    have st: "st = Fields_step sep sp c"
      by (simp add: st_def sp_def snoc Fields_loop_snoc)
    have esc: "isEscaped sp = pending_escape p"
      unfolding sp_def by (rule isEscaped_pending) (simp add: Fields_init_def)
    have e: "ends_in_delimiter s sep \<longleftrightarrow> c = sep \<and> sep \<noteq> bslash \<and> \<not> isEscaped sp"
      by (simp add: ends_in_delimiter_def snoc esc)
    show ?thesis
    proof (cases "ends_in_delimiter s sep")
      case True
      then have c: "c = sep" "sep \<noteq> bslash" "\<not> isEscaped sp" using e by simp_all
      have "balance sp = 0 \<and> \<not> inSingle sp \<and> \<not> inDouble sp"
        using step_sep_flags[OF c(3) c(2)] fl st c(1) by simp
      then have "splits sep sp c" using c by (simp add: splits_def)
      then have s2: "fields' st = fields' sp @ [sb sp]" "sb st = []"
        using Fields_step_splits[of sep sp c] st by simp_all
      have "Join fs sep @ [sep] = Join (fields' st @ [sb st]) sep"
        using s2 Join_snoc_split[of "fields' sp" "sb sp" sep] by (simp add: fs_def)
      then show ?thesis using True em by simp
    next
      case False
      then have "\<not> splits sep sp c" using e by (auto simp add: splits_def)
      then have "sb st \<noteq> []" using step_not_split_writes[of sep sp c] fl(1) st by simp
      then show ?thesis using False em by (simp add: fs_def)
    qed
  qed
  with res show ?thesis by blast
qed

subsection \<open>C1: the joined fields and the input\<close>

text \<open>
  C1 as stated does not hold, in three ways. The balanced input \<^verbatim>\<open>a\b\<close> gives the single
  field \<^verbatim>\<open>ab\<close>: the backslash that starts an escape is consumed and is in no field.
  The balanced input \<^verbatim>\<open>(a)\<close> with \<^verbatim>\<open>)\<close> as separator gives an error: \<^verbatim>\<open>case sep\<close>
  comes before \<^verbatim>\<open>case ')'\<close>, so the counter is never decremented. The input with bytes
  \<^verbatim>\<open>61 FF 2C 62\<close> is not well-formed UTF-8 and gives the fields \<^verbatim>\<open>61 EF BF BD\<close> and
  \<^verbatim>\<open>62\<close>: the byte \<^verbatim>\<open>FF\<close> is read as U+FFFD and is in no field.
\<close>

theorem Fields_str_loses_input:
  "balanced_input (range_runes [0x61, 0x5C, 0x62]) \<and>
   Fields_str [0x61, 0x5C, 0x62] comma = (Some [[0x61, 0x62]], None) \<and>
   balanced_input (range_runes [0x28, 0x61, 0x29]) \<and>
   Fields_str [0x28, 0x61, 0x29] rparen =
     (None, Some (errors_New ''unbalanced parentheses in string'')) \<and>
   balanced_input (range_runes [0x61, 0xFF, 0x2C, 0x62]) \<and>
   Fields_str [0x61, 0xFF, 0x2C, 0x62] comma =
     (Some [[0x61, 0xEF, 0xBF, 0xBD], [0x62]], None)"
  by (simp add: balanced_input_def Fields_str_def Fields_defs rune_defs decoderune_def
      Builder_String_def AppendRune_def to_byte_def)

text \<open>
  C1, amended: for every well-formed UTF-8 input (the string of scalar values \<open>rs\<close>) in
  which parentheses, quotes and escapes are balanced, and every separator that is not a
  quote or parenthesis character, \<open>Fields\<close> returns no error, and the returned fields,
  joined with the separator between consecutive fields and followed by the separator
  when the input ends in an unescaped separator, are exactly the characters of the input
  without the backslashes that start an escape. So every character of the input is
  recovered, in order, except those backslashes.
\<close>

theorem Fields_str_join_recovers:
  assumes "\<forall>r\<in>set rs. scalar r" "balanced_input rs"
    "sep \<notin> {dquote, squote, lparen, rparen}"
  shows "\<exists>fs. Fields_str (Builder_String rs) sep = (Some (map Builder_String fs), None) \<and>
           Join fs sep @ (if ends_in_delimiter rs sep then [sep] else []) =
             strip_escapes rs"
proof -
  have rr: "range_runes (Builder_String rs) = rs"
    using range_Builder_String[OF assms(1), of "[]"] by simp
  have "flags_ok 0 Outside (Fields_loop sep Fields_init rs)"
    using balanced_scan_Fields_loop[OF assms(3), of 0 Outside rs Fields_init] assms(2)
    by (simp add: balanced_input_def flags_ok_def Fields_init_def)
  from Fields_join_exact[OF this] obtain fs where
    "Fields rs sep = (Some fs, None)"
    "Join fs sep @ (if ends_in_delimiter rs sep then [sep] else []) = strip_escapes rs"
    by blast
  then show ?thesis by (auto simp add: Fields_str_def rr)
qed

text \<open>
  At the five characters \<^verbatim>\<open>a\,\<close>, U+00E9 (two bytes) and \<^verbatim>\<open>,\<close> with the comma as
  separator: the escaped comma stays in the field, the last comma closes it, and the
  field followed by a comma is the input without its backslash.
\<close>

theorem Fields_str_join_recovers_witness:
  "scalar 0x61 \<and> scalar bslash \<and> scalar comma \<and> scalar 0xE9 \<and>
   balanced_input [0x61, bslash, comma, 0xE9, comma] \<and>
   comma \<notin> {dquote, squote, lparen, rparen} \<and>
   Builder_String [0x61, bslash, comma, 0xE9, comma] = [0x61, 0x5C, 0x2C, 0xC3, 0xA9, 0x2C] \<and>
   Fields_str [0x61, 0x5C, 0x2C, 0xC3, 0xA9, 0x2C] comma =
     (Some [[0x61, 0x2C, 0xC3, 0xA9]], None) \<and>
   ends_in_delimiter [0x61, bslash, comma, 0xE9, comma] comma \<and>
   strip_escapes [0x61, bslash, comma, 0xE9, comma] = [0x61, comma, 0xE9, comma]"
  using Fields_str_join_recovers[of "[0x61, bslash, comma, 0xE9, comma]" comma]
  by (simp add: scalar_def balanced_input_def ends_in_delimiter_def Fields_str_def
      Fields_defs rune_defs decoderune_def Builder_String_def AppendRune_def to_byte_def)

subsection \<open>C2: a closing parenthesis that takes the counter below zero\<close>

text \<open>
  C2 says that an unsuppressed closing parenthesis that makes the counter negative is
  fatal whatever follows. The code only looks at the counter after the loop: on
  \<^verbatim>\<open>)(\<close> the counter is \<open>-1\<close> after the first rune and back at zero at the end, and
  \<open>Fields\<close> returns the one field \<^verbatim>\<open>)(\<close> with no error.
\<close>

theorem Fields_negative_dip_rebalanced:
  "balance (Fields_loop comma Fields_init [rparen]) = - 1 \<and>
   Fields [rparen, lparen] comma = (Some [[rparen, lparen]], None)"
  by (simp add: Fields_defs rune_defs)

subsection \<open>C3: the errors of Fields\<close>

text \<open>
  C3: \<open>Fields\<close> returns an error exactly when, after the scan, the escape flag is set, the
  parenthesis counter is not zero, or a quote is open. The checks are made in the order
  dangling escape, negative counter, positive counter, open single quote, open double
  quote, and the first that fires gives the error. With an error the returned slice is nil.
\<close>

theorem Fields_error_iff_end_state:
  "(snd (Fields s sep) =
      (let st = Fields_loop sep Fields_init s in
       if isEscaped st then Some (errors_New ''dangling escape character at end of string'')
       else if balance st < 0 then Some (errors_New ''too many closing parentheses'')
       else if balance st > 0 then Some (errors_New ''unbalanced parentheses in string'')
       else if inSingle st then Some (errors_New ''unbalanced single quote in string'')
       else if inDouble st then Some (errors_New ''unbalanced double quote in string'')
       else None)) \<and>
   (snd (Fields s sep) \<noteq> None \<longleftrightarrow>
      (let st = Fields_loop sep Fields_init s in
       isEscaped st \<or> balance st \<noteq> 0 \<or> inSingle st \<or> inDouble st)) \<and>
   (snd (Fields s sep) \<noteq> None \<longrightarrow> fst (Fields s sep) = None)"
  by (simp add: Fields_def Let_def)

text \<open>
  Five inputs with two or three violations each; the error is the one of the earliest
  check, and the slice is nil.
\<close>

theorem Fields_error_iff_end_state_witness:
  "Fields [lparen, squote, bslash] comma =
     (None, Some (errors_New ''dangling escape character at end of string'')) \<and>
   Fields [rparen, squote] comma =
     (None, Some (errors_New ''too many closing parentheses'')) \<and>
   Fields [lparen, squote] comma =
     (None, Some (errors_New ''unbalanced parentheses in string'')) \<and>
   Fields [squote, dquote] comma =
     (None, Some (errors_New ''unbalanced single quote in string'')) \<and>
   Fields [dquote, squote] comma =
     (None, Some (errors_New ''unbalanced double quote in string''))"
  using Fields_error_iff_end_state[of "[lparen, squote, bslash]" comma]
    Fields_error_iff_end_state[of "[rparen, squote]" comma]
    Fields_error_iff_end_state[of "[lparen, squote]" comma]
    Fields_error_iff_end_state[of "[squote, dquote]" comma]
    Fields_error_iff_end_state[of "[dquote, squote]" comma]
  by (simp add: Fields_defs rune_defs)

subsection \<open>C4: the separator, quotes and parentheses in the switch\<close>

text \<open>
  C4 as stated does not hold when the separator is itself one of the special characters,
  because the \<^verbatim>\<open>switch\<close> takes the first matching case. With the double quote as
  separator, \<^verbatim>\<open>a"b\<close> is split at the quote, which is in no field. With the backslash as
  separator, \<^verbatim>\<open>a\b\<close> is never split: \<^verbatim>\<open>case '\\'\<close> comes before \<^verbatim>\<open>case sep\<close>.
\<close>

theorem Fields_separator_quote_not_retained:
  "Fields (runes ''a'' @ [dquote] @ runes ''b'') dquote =
     (Some [runes ''a'', runes ''b''], None) \<and>
   dquote \<notin> set (concat [runes ''a'', runes ''b'']) \<and>
   Fields (runes ''a'' @ [bslash] @ runes ''b'') bslash = (Some [runes ''ab''], None)"
  by (simp add: Fields_defs rune_defs)

text \<open>
  C4, amended: when no escape is pending, a separator other than the backslash closes the
  current field exactly when the parenthesis counter is zero and no quote is open, and is
  then appended to no field; otherwise it is copied into the current field and nothing
  else changes. A quote or parenthesis character is appended to the current field by
  every step that does not split on it (so always, unless it is the separator).
  \<^verbatim>\<open>Fields(`a,"b,c",d`, ',')\<close> is \<^verbatim>\<open>["a", `"b,c"`, "d"]\<close> with no error.
\<close>

theorem Fields_step_separator_and_quotes:
  "(\<not> isEscaped st \<and> sep \<noteq> bslash \<longrightarrow>
      Fields_step sep st sep =
        (if balance st = 0 \<and> \<not> inSingle st \<and> \<not> inDouble st
         then st\<lparr>fields' := fields' st @ [sb st], sb := []\<rparr>
         else st\<lparr>sb := sb st @ [sep]\<rparr>)) \<and>
   (r \<in> {dquote, squote, lparen, rparen} \<and> \<not> splits sep st r \<longrightarrow>
      sb (Fields_step sep st r) = sb st @ [r] \<and>
      fields' (Fields_step sep st r) = fields' st) \<and>
   Fields (runes ''a,'' @ [dquote] @ runes ''b,c'' @ [dquote] @ runes '',d'') comma =
     (Some [runes ''a'', [dquote] @ runes ''b,c'' @ [dquote], runes ''d''], None)"
proof (intro conjI)
  show "\<not> isEscaped st \<and> sep \<noteq> bslash \<longrightarrow>
      Fields_step sep st sep =
        (if balance st = 0 \<and> \<not> inSingle st \<and> \<not> inDouble st
         then st\<lparr>fields' := fields' st @ [sb st], sb := []\<rparr>
         else st\<lparr>sb := sb st @ [sep]\<rparr>)"
    by (simp add: Fields_step_def WriteRune_def)
  show "r \<in> {dquote, squote, lparen, rparen} \<and> \<not> splits sep st r \<longrightarrow>
      sb (Fields_step sep st r) = sb st @ [r] \<and>
      fields' (Fields_step sep st r) = fields' st"
    by (auto simp add: Fields_step_def WriteRune_def splits_def rune_defs)
  show "Fields (runes ''a,'' @ [dquote] @ runes ''b,c'' @ [dquote] @ runes '',d'') comma =
     (Some [runes ''a'', [dquote] @ runes ''b,c'' @ [dquote], runes ''d''], None)"
    by (simp add: Fields_defs rune_defs)
qed

text \<open>
  In the initial state a comma splits and a double quote is written; inside a double
  quote the comma is written.
\<close>

theorem Fields_step_separator_and_quotes_witness:
  "\<not> isEscaped Fields_init \<and> comma \<noteq> bslash \<and>
   Fields_step comma Fields_init comma = Fields_init\<lparr>fields' := [[]], sb := []\<rparr> \<and>
   Fields_step comma (Fields_init\<lparr>inDouble := True\<rparr>) comma =
     Fields_init\<lparr>inDouble := True, sb := [comma]\<rparr> \<and>
   \<not> splits comma Fields_init dquote \<and>
   sb (Fields_step comma Fields_init dquote) = [dquote] \<and>
   fields' (Fields_step comma Fields_init dquote) = []"
  using Fields_step_separator_and_quotes[of Fields_init comma dquote]
    Fields_step_separator_and_quotes[of "Fields_init\<lparr>inDouble := True\<rparr>" comma dquote]
  by (simp add: Fields_init_def splits_def rune_defs)

subsection \<open>C8: the last field\<close>

text \<open>
  C8: after a scan without error, \<open>Fields\<close> appends the current field only if it is not
  empty. The empty input gives the empty slice (not nil, and not one empty string). An
  input that ends in a separator that splits gives exactly the fields closed during the
  scan, the last one closed by that separator, and no empty field after it. Two
  consecutive separators that split leave an empty field between them in the result.
\<close>

theorem Fields_trailing_field:
  "(let st = Fields_loop sep Fields_init s in
      snd (Fields s sep) = None \<longrightarrow>
        Fields s sep =
          (Some (if sb st \<noteq> [] then fields' st @ [sb st] else fields' st), None)) \<and>
   Fields [] sep = (Some [], None) \<and>
   (let st = Fields_loop sep Fields_init s in
      splits sep st sep \<longrightarrow>
        Fields (s @ [sep]) sep = (Some (fields' st @ [sb st]), None)) \<and>
   (let st = Fields_loop sep Fields_init s in
      splits sep st sep \<and> snd (Fields (s @ sep # sep # t) sep) = None \<longrightarrow>
        (\<exists>rest. fst (Fields (s @ sep # sep # t) sep) =
                  Some (fields' st @ [sb st, []] @ rest)))"
proof (intro conjI)
  show "let st = Fields_loop sep Fields_init s in
      snd (Fields s sep) = None \<longrightarrow>
        Fields s sep =
          (Some (if sb st \<noteq> [] then fields' st @ [sb st] else fields' st), None)"
    by (simp add: Fields_def Let_def)
  show "Fields [] sep = (Some [], None)"
    by (simp add: Fields_def Fields_init_def)
  show "let st = Fields_loop sep Fields_init s in
      splits sep st sep \<longrightarrow>
        Fields (s @ [sep]) sep = (Some (fields' st @ [sb st]), None)"
    by (simp add: Let_def Fields_def Fields_loop_append Fields_step_splits)
       (simp add: splits_def)
  show "let st = Fields_loop sep Fields_init s in
      splits sep st sep \<and> snd (Fields (s @ sep # sep # t) sep) = None \<longrightarrow>
        (\<exists>rest. fst (Fields (s @ sep # sep # t) sep) =
                  Some (fields' st @ [sb st, []] @ rest))"
  proof -
    define st where "st = Fields_loop sep Fields_init s"
    define st2 where "st2 = Fields_step sep (Fields_step sep st sep) sep"
    define fin where "fin = Fields_loop sep st2 t"
    have fin: "Fields_loop sep Fields_init (s @ sep # sep # t) = fin"
      by (simp add: Fields_loop_append st_def st2_def fin_def)
    have "splits sep st sep \<and> snd (Fields (s @ sep # sep # t) sep) = None \<longrightarrow>
        (\<exists>rest. fst (Fields (s @ sep # sep # t) sep) =
                  Some (fields' st @ [sb st, []] @ rest))"
    proof
      assume a: "splits sep st sep \<and> snd (Fields (s @ sep # sep # t) sep) = None"
      then have sp: "splits sep st sep" by simp
      have f2: "fields' st2 = fields' st @ [sb st, []]"
        using Fields_step_splits[OF sp] Fields_step_splits[OF splits_after[OF sp]]
        by (simp add: st2_def)
      obtain rest where r: "fields' fin = fields' st2 @ rest"
        using Fields_loop_fields_mono[of sep st2 t] by (auto simp: fin_def)
      have "fst (Fields (s @ sep # sep # t) sep) =
              Some (if sb fin \<noteq> [] then fields' fin @ [sb fin] else fields' fin)"
        using a by (simp add: Fields_def Let_def fin split: if_splits)
      then show "\<exists>rest. fst (Fields (s @ sep # sep # t) sep) =
                  Some (fields' st @ [sb st, []] @ rest)"
        using r f2 by (cases "sb fin = []") simp_all
    qed
    then show ?thesis by (simp add: Let_def st_def)
  qed
qed

text \<open>
  With the comma as separator: \<^verbatim>\<open>a\<close> and \<^verbatim>\<open>a,\<close> both give the one field \<^verbatim>\<open>a\<close>, and
  \<^verbatim>\<open>a,,b\<close> gives three fields, the middle one empty.
\<close>

theorem Fields_trailing_field_witness:
  "splits comma (Fields_loop comma Fields_init (runes ''a'')) comma \<and>
   Fields (runes ''a'') comma = (Some [runes ''a''], None) \<and>
   Fields (runes ''a'' @ [comma]) comma = (Some [runes ''a''], None) \<and>
   Fields (runes ''a'' @ comma # comma # runes ''b'') comma =
     (Some [runes ''a'', [], runes ''b''], None)"
  using Fields_trailing_field[of comma "runes ''a''" "runes ''b''"]
  by (simp add: Fields_defs rune_defs splits_def Let_def)

subsection \<open>C9: the two quote flags\<close>

text \<open>
  C9: at every position of every scan (after every prefix \<open>p\<close> of an input) the flags
  \<open>inSingle\<close> and \<open>inDouble\<close> are not both set. A double quote read while a single quote
  is open, and a single quote read while a double quote is open, leaves both flags as
  they are and is appended to the current field; no field is closed.
\<close>

theorem Fields_quotes_exclusive:
  "(let st = Fields_loop sep Fields_init p; st' = Fields_step sep st r in
     \<not> (inSingle st \<and> inDouble st) \<and>
     (inSingle st \<and> r = dquote \<longrightarrow>
        inDouble st' = inDouble st \<and> inSingle st' = inSingle st \<and>
        sb st' = sb st @ [r] \<and> fields' st' = fields' st) \<and>
     (inDouble st \<and> r = squote \<longrightarrow>
        inSingle st' = inSingle st \<and> inDouble st' = inDouble st \<and>
        sb st' = sb st @ [r] \<and> fields' st' = fields' st))"
proof -
  have "\<not> (inSingle (Fields_loop sep Fields_init p) \<and>
           inDouble (Fields_loop sep Fields_init p))"
    by (rule Fields_loop_excl) (simp add: Fields_init_def)
  then show ?thesis
    by (auto simp add: Let_def Fields_step_def WriteRune_def rune_defs)
qed

text \<open>After one single quote a double quote is inert, and the other way round.\<close>

theorem Fields_quotes_exclusive_witness:
  "inSingle (Fields_loop comma Fields_init [squote]) \<and>
   \<not> inDouble (Fields_step comma (Fields_loop comma Fields_init [squote]) dquote) \<and>
   sb (Fields_step comma (Fields_loop comma Fields_init [squote]) dquote) =
     [squote, dquote] \<and>
   inDouble (Fields_loop comma Fields_init [dquote]) \<and>
   \<not> inSingle (Fields_step comma (Fields_loop comma Fields_init [dquote]) squote) \<and>
   sb (Fields_step comma (Fields_loop comma Fields_init [dquote]) squote) =
     [dquote, squote]"
  using Fields_quotes_exclusive[of comma "[squote]" dquote]
    Fields_quotes_exclusive[of comma "[dquote]" squote]
  by (simp add: Fields_defs rune_defs Let_def)

section \<open>Properties of UnquoteString and UnquoteStrings\<close>

lemmas Unquote_defs =
  UnquoteString_def UnquoteString_init_def UnquoteString_step_def runes_def

lemma UnquoteString_step_Inl:
  "UnquoteString_step st r = Inl e \<longleftrightarrow>
     \<not> escape st \<and> r = bslash \<and> \<not> inQuote st \<and>
     e = errors_New ''escape character found outside a quote''"
  by (auto simp add: UnquoteString_step_def)

text \<open>The escape flag is only ever set inside a quote.\<close>

lemma UnquoteString_step_inv:
  "UnquoteString_step st r = Inr st' \<Longrightarrow> (escape st \<longrightarrow> inQuote st) \<Longrightarrow>
     (escape st' \<longrightarrow> inQuote st')"
  by (auto simp add: UnquoteString_step_def split: if_splits)

lemma UnquoteString_loop_inv:
  "UnquoteString_loop st s = Inr st' \<Longrightarrow> (escape st \<longrightarrow> inQuote st) \<Longrightarrow>
     (escape st' \<longrightarrow> inQuote st')"
proof (induction s arbitrary: st)
  case Nil
  then show ?case by simp
next
  case (Cons r rs)
  then obtain st1 where s1: "UnquoteString_step st r = Inr st1"
    and l1: "UnquoteString_loop st1 rs = Inr st'"
    by (auto split: sum.splits)
  from Cons.IH[OF l1] UnquoteString_step_inv[OF s1] Cons.prems(2) show ?case by blast
qed

text \<open>
  The loop returns early exactly when it reaches a backslash with neither flag set.
\<close>

lemma UnquoteString_loop_Inl:
  "(\<exists>e. UnquoteString_loop st s = Inl e) \<longleftrightarrow>
     (\<exists>p t st'. s = p @ bslash # t \<and> UnquoteString_loop st p = Inr st' \<and>
                \<not> escape st' \<and> \<not> inQuote st')"
proof (induction s arbitrary: st)
  case Nil
  then show ?case by simp
next
  case (Cons r rs)
  show ?case
  proof (cases "UnquoteString_step st r")
    case (Inl e)
    then have c: "\<not> escape st \<and> r = bslash \<and> \<not> inQuote st"
      by (simp add: UnquoteString_step_Inl)
    have "r # rs = [] @ bslash # rs \<and> UnquoteString_loop st [] = Inr st \<and>
            \<not> escape st \<and> \<not> inQuote st"
      using c by simp
    then have "\<exists>p t st'. r # rs = p @ bslash # t \<and>
                UnquoteString_loop st p = Inr st' \<and> \<not> escape st' \<and> \<not> inQuote st'"
      by blast
    then show ?thesis using Inl by simp
  next
    case (Inr st1)
    have nofail: "\<not> (\<not> escape st \<and> r = bslash \<and> \<not> inQuote st)"
      using Inr UnquoteString_step_Inl[of st r] by auto
    have l: "(\<exists>e. UnquoteString_loop st (r # rs) = Inl e) \<longleftrightarrow>
             (\<exists>e. UnquoteString_loop st1 rs = Inl e)"
      using Inr by simp
    have r: "(\<exists>p t st'. r # rs = p @ bslash # t \<and> UnquoteString_loop st p = Inr st' \<and>
                \<not> escape st' \<and> \<not> inQuote st') \<longleftrightarrow>
             (\<exists>p t st'. rs = p @ bslash # t \<and> UnquoteString_loop st1 p = Inr st' \<and>
                \<not> escape st' \<and> \<not> inQuote st')" (is "?A \<longleftrightarrow> ?B")
    proof
      assume ?A
      then obtain p t st' where h: "r # rs = p @ bslash # t"
        "UnquoteString_loop st p = Inr st'" "\<not> escape st'" "\<not> inQuote st'" by blast
      show ?B
      proof (cases p)
        case Nil
        then show ?thesis using h nofail by simp
      next
        case (Cons a p')
        then have "rs = p' @ bslash # t" "UnquoteString_loop st1 p' = Inr st'"
          using h Inr by simp_all
        then show ?thesis using h(3,4) by blast
      qed
    next
      assume ?B
      then obtain p t st' where h: "rs = p @ bslash # t"
        "UnquoteString_loop st1 p = Inr st'" "\<not> escape st'" "\<not> inQuote st'" by blast
      have "r # rs = (r # p) @ bslash # t" "UnquoteString_loop st (r # p) = Inr st'"
        using h Inr by simp_all
      then show ?A using h(3,4) by blast
    qed
    show ?thesis using l r Cons.IH[of st1] by simp
  qed
qed

lemma UnquoteString_loop_plain:
  "bslash \<notin> set s \<Longrightarrow> dquote \<notin> set s \<Longrightarrow> \<not> escape st \<Longrightarrow>
   UnquoteString_loop st s = Inr (st\<lparr>usb := usb st @ s\<rparr>)"
  by (induction s arbitrary: st) (simp_all add: UnquoteString_step_def)

lemma UnquoteStrings_loop_ok:
  "\<forall>x\<in>set elems. snd (UnquoteString x) = None \<Longrightarrow>
   UnquoteStrings_loop acc elems =
     (Some (acc @ map (\<lambda>x. fst (UnquoteString x)) elems), None)"
proof (induction elems arbitrary: acc)
  case Nil
  then show ?case by simp
next
  case (Cons x xs)
  obtain s where s: "UnquoteString x = (s, None)"
    using Cons.prems by (cases "UnquoteString x") auto
  have "\<forall>y\<in>set xs. snd (UnquoteString y) = None" using Cons.prems by simp
  from Cons.IH[OF this, of "acc @ [s]"] s show ?case by simp
qed

lemma UnquoteStrings_loop_fail:
  "\<forall>y\<in>set pre. snd (UnquoteString y) = None \<Longrightarrow> snd (UnquoteString x) = Some e \<Longrightarrow>
   UnquoteStrings_loop acc (pre @ x # post) = (None, Some e)"
proof (induction pre arbitrary: acc)
  case Nil
  then show ?case by (cases "UnquoteString x") auto
next
  case (Cons y ys)
  obtain s where s: "UnquoteString y = (s, None)"
    using Cons.prems(1) by (cases "UnquoteString y") auto
  have "\<forall>z\<in>set ys. snd (UnquoteString z) = None" using Cons.prems(1) by simp
  from Cons.IH[OF this Cons.prems(2), of "acc @ [s]"] s show ?case by simp
qed

subsection \<open>C5: how an escape is resolved\<close>

text \<open>
  C5: with the escape flag set, a double quote or a backslash is appended alone, and any
  other rune is appended after a literal backslash; the flag is cleared. So inside a quote
  a backslash followed by a rune that is neither of the two comes out as it went in. A
  double quote read with the flag clear toggles \<open>inQuote\<close> and adds nothing to the
  output. \<^verbatim>\<open>UnquoteString(`"foo\"","bar"`)\<close> is \<^verbatim>\<open>foo",bar\<close> with no error.
\<close>

theorem UnquoteString_escape_resolution:
  "(escape st \<longrightarrow>
      UnquoteString_step st r =
        Inr (st\<lparr>usb := usb st @ (if r = dquote \<or> r = bslash then [r] else [bslash, r]),
                escape := False\<rparr>)) \<and>
   (inQuote st \<and> \<not> escape st \<and> r \<noteq> dquote \<and> r \<noteq> bslash \<longrightarrow>
      UnquoteString_loop st [bslash, r] = Inr (st\<lparr>usb := usb st @ [bslash, r]\<rparr>)) \<and>
   (\<not> escape st \<longrightarrow>
      UnquoteString_step st dquote = Inr (st\<lparr>inQuote := \<not> inQuote st\<rparr>)) \<and>
   UnquoteString ([dquote] @ runes ''foo'' @ [bslash, dquote, dquote] @ runes '','' @
                  [dquote] @ runes ''bar'' @ [dquote]) =
     (runes ''foo'' @ [dquote] @ runes '',bar'', None)"
  by (simp add: Unquote_defs rune_defs)

text \<open>
  In a quote with the flag set, \<^verbatim>\<open>"\<close> gives \<^verbatim>\<open>"\<close> and \<^verbatim>\<open>n\<close> gives \<^verbatim>\<open>\n\<close>; with
  the flag clear, \<^verbatim>\<open>\n\<close> is copied and a double quote closes the quote silently.
\<close>

theorem UnquoteString_escape_resolution_witness:
  "UnquoteString_step \<lparr>usb = [], inQuote = True, escape = True\<rparr> dquote =
     Inr \<lparr>usb = [dquote], inQuote = True, escape = False\<rparr> \<and>
   UnquoteString_step \<lparr>usb = [], inQuote = True, escape = True\<rparr> 0x6E =
     Inr \<lparr>usb = [bslash, 0x6E], inQuote = True, escape = False\<rparr> \<and>
   UnquoteString_loop \<lparr>usb = [], inQuote = True, escape = False\<rparr> [bslash, 0x6E] =
     Inr \<lparr>usb = [bslash, 0x6E], inQuote = True, escape = False\<rparr> \<and>
   UnquoteString_step \<lparr>usb = [], inQuote = True, escape = False\<rparr> dquote =
     Inr \<lparr>usb = [], inQuote = False, escape = False\<rparr>"
  using UnquoteString_escape_resolution[of "\<lparr>usb = [], inQuote = True, escape = True\<rparr>" dquote]
    UnquoteString_escape_resolution[of "\<lparr>usb = [], inQuote = True, escape = True\<rparr>" "0x6E"]
    UnquoteString_escape_resolution[of "\<lparr>usb = [], inQuote = True, escape = False\<rparr>" "0x6E"]
  by (simp add: rune_defs)

subsection \<open>C6: the errors of UnquoteString\<close>

text \<open>
  C6: \<open>UnquoteString\<close> returns an error exactly when the scan reaches a backslash while
  \<open>inQuote\<close> is false, or the scan reaches the end with the escape flag set, or it reaches
  the end with \<open>inQuote\<close> set. With an error the returned string is empty.
\<close>

theorem UnquoteString_error_iff:
  "(snd (UnquoteString s) \<noteq> None \<longleftrightarrow>
      (\<exists>p t st. s = p @ bslash # t \<and>
                UnquoteString_loop UnquoteString_init p = Inr st \<and> \<not> inQuote st) \<or>
      (\<exists>st. UnquoteString_loop UnquoteString_init s = Inr st \<and> escape st) \<or>
      (\<exists>st. UnquoteString_loop UnquoteString_init s = Inr st \<and> inQuote st)) \<and>
   (snd (UnquoteString s) \<noteq> None \<longrightarrow> fst (UnquoteString s) = [])"
proof -
  have inv: "\<not> inQuote st \<longrightarrow> \<not> escape st"
    if "UnquoteString_loop UnquoteString_init p = Inr st" for p st
    using UnquoteString_loop_inv[OF that] by (auto simp add: UnquoteString_init_def)
  have out: "(\<exists>p t st. s = p @ bslash # t \<and>
                UnquoteString_loop UnquoteString_init p = Inr st \<and> \<not> inQuote st) \<longleftrightarrow>
             (\<exists>e. UnquoteString_loop UnquoteString_init s = Inl e)"
    unfolding UnquoteString_loop_Inl using inv by blast
  show ?thesis
  proof (cases "UnquoteString_loop UnquoteString_init s")
    case (Inl e)
    then show ?thesis using out by (simp add: UnquoteString_def)
  next
    case (Inr st)
    then show ?thesis using out by (auto simp add: UnquoteString_def)
  qed
qed

text \<open>One input for each of the three errors; the string returned is empty each time.\<close>

theorem UnquoteString_error_iff_witness:
  "UnquoteString (runes ''a'' @ [bslash]) =
     ([], Some (errors_New ''escape character found outside a quote'')) \<and>
   UnquoteString ([dquote] @ runes ''a'' @ [bslash]) =
     ([], Some (errors_New ''dangling escape character at end of string'')) \<and>
   UnquoteString ([dquote] @ runes ''a'') =
     ([], Some (errors_New ''unterminated double quote''))"
  using UnquoteString_error_iff[of "runes ''a'' @ [bslash]"]
    UnquoteString_error_iff[of "[dquote] @ runes ''a'' @ [bslash]"]
    UnquoteString_error_iff[of "[dquote] @ runes ''a''"]
  by (simp add: Unquote_defs rune_defs)

subsection \<open>C7: UnquoteStrings\<close>

text \<open>
  C7: if \<open>UnquoteString\<close> succeeds on every element, \<open>UnquoteStrings\<close> returns the results
  in the order of the input, as many as there are elements, and no error. If it fails on
  some element, \<open>UnquoteStrings\<close> returns nil and the error of the first element that
  fails, whatever comes after it.
\<close>

theorem UnquoteStrings_all_or_first_error:
  "((\<forall>x\<in>set elems. snd (UnquoteString x) = None) \<longrightarrow>
      UnquoteStrings elems = (Some (map (\<lambda>x. fst (UnquoteString x)) elems), None) \<and>
      (\<exists>out. fst (UnquoteStrings elems) = Some out \<and> length out = length elems)) \<and>
   ((\<forall>y\<in>set pre. snd (UnquoteString y) = None) \<and> snd (UnquoteString x) = Some e \<longrightarrow>
      UnquoteStrings (pre @ x # post) = (None, Some e))"
  using UnquoteStrings_loop_ok[of elems "[]"] UnquoteStrings_loop_fail[of pre x e "[]" post]
  by (simp add: UnquoteStrings_def)

text \<open>
  Two elements that succeed; then three elements of which the second and the third fail,
  with different errors: the error returned is the second element's.
\<close>

theorem UnquoteStrings_all_or_first_error_witness:
  "snd (UnquoteString ([dquote] @ runes ''a'' @ [dquote])) = None \<and>
   snd (UnquoteString (runes ''b'')) = None \<and>
   UnquoteStrings [[dquote] @ runes ''a'' @ [dquote], runes ''b''] =
     (Some [runes ''a'', runes ''b''], None) \<and>
   snd (UnquoteString [dquote]) = Some (errors_New ''unterminated double quote'') \<and>
   snd (UnquoteString [bslash]) =
     Some (errors_New ''escape character found outside a quote'') \<and>
   UnquoteStrings [runes ''a'', [dquote], [bslash]] =
     (None, Some (errors_New ''unterminated double quote''))"
  using UnquoteStrings_all_or_first_error[of "[[dquote] @ runes ''a'' @ [dquote], runes ''b'']"
      "[runes ''a'']" "[dquote]" "errors_New ''unterminated double quote''" "[[bslash]]"]
  by (simp add: Unquote_defs rune_defs)

subsection \<open>C10: strings without quote and backslash\<close>

text \<open>
  C10 as stated does not hold on a string that is not well-formed UTF-8. The input with
  bytes \<^verbatim>\<open>61 FF 62\<close> contains neither a double quote nor a backslash; \<^verbatim>\<open>range\<close> reads
  the byte \<^verbatim>\<open>FF\<close> as U+FFFD and \<^verbatim>\<open>WriteRune\<close> writes \<^verbatim>\<open>EF BF BD\<close> for it, so the
  string returned is not the input.
\<close>

theorem UnquoteString_str_illformed_changed:
  "(0x22::byte) \<notin> set [0x61, 0xFF, 0x62] \<and> (0x5C::byte) \<notin> set [0x61, 0xFF, 0x62] \<and>
   dquote \<notin> set (range_runes [0x61, 0xFF, 0x62]) \<and>
   bslash \<notin> set (range_runes [0x61, 0xFF, 0x62]) \<and>
   UnquoteString_str [0x61, 0xFF, 0x62] = ([0x61, 0xEF, 0xBF, 0xBD, 0x62], None) \<and>
   [0x61, 0xEF, 0xBF, 0xBD, 0x62] \<noteq> [0x61, 0xFF, (0x62::byte)]"
  by (simp add: UnquoteString_str_def Unquote_defs rune_defs decoderune_def
      Builder_String_def AppendRune_def to_byte_def)

text \<open>
  C10, amended: on every well-formed UTF-8 input (the string of scalar values \<open>rs\<close>) that
  contains neither a double quote nor a backslash, \<open>UnquoteString\<close> returns the input
  itself and no error.
\<close>

theorem UnquoteString_str_plain_identity:
  assumes "\<forall>r\<in>set rs. scalar r" "bslash \<notin> set rs" "dquote \<notin> set rs"
  shows "UnquoteString_str (Builder_String rs) = (Builder_String rs, None)"
proof -
  have rr: "range_runes (Builder_String rs) = rs"
    using range_Builder_String[OF assms(1), of "[]"] by simp
  have "UnquoteString rs = (rs, None)"
    using UnquoteString_loop_plain[OF assms(2,3), of UnquoteString_init]
    by (simp add: UnquoteString_def UnquoteString_init_def)
  then show ?thesis by (simp add: UnquoteString_str_def rr)
qed

text \<open>
  The five characters \<^verbatim>\<open>a,(\<close>, U+00E9 and U+1F600, nine bytes, come back as they are.
\<close>

theorem UnquoteString_str_plain_identity_witness:
  "scalar 0x61 \<and> scalar comma \<and> scalar lparen \<and> scalar 0xE9 \<and> scalar 0x1F600 \<and>
   bslash \<notin> set [0x61, comma, lparen, 0xE9, 0x1F600] \<and>
   dquote \<notin> set [0x61, comma, lparen, 0xE9, 0x1F600] \<and>
   Builder_String [0x61, comma, lparen, 0xE9, 0x1F600] =
     [0x61, 0x2C, 0x28, 0xC3, 0xA9, 0xF0, 0x9F, 0x98, 0x80] \<and>
   UnquoteString_str [0x61, 0x2C, 0x28, 0xC3, 0xA9, 0xF0, 0x9F, 0x98, 0x80] =
     ([0x61, 0x2C, 0x28, 0xC3, 0xA9, 0xF0, 0x9F, 0x98, 0x80], None)"
  using UnquoteString_str_plain_identity[of "[0x61, comma, lparen, 0xE9, 0x1F600]"]
  by (simp add: scalar_def rune_defs Builder_String_def AppendRune_def to_byte_def)

end
